theory Spec2Isabelle
  imports Main "HOL-Library.Sublist"
begin

section \<open>Python values and the operations the program applies to them\<close>

text \<open>
  The program is dynamically typed: \<^verbatim>\<open>Task.from_dict\<close> and
  \<^verbatim>\<open>TaskManager.load_tasks\<close> store whatever values the JSON document holds,
  without checking their types. An attribute of a task and the counter
  \<^verbatim>\<open>next_id\<close> are therefore Python values: \<^verbatim>\<open>None\<close>, a bool, an int, a
  str, a list or a dict with str keys (the values \<^verbatim>\<open>json.load\<close> builds; floats
  are left out of the model). A dict is the list of its items in insertion order.
\<close>

datatype pyval =
    PNone
  | PBool bool
  | PInt int
  | PStr string
  | PList "pyval list"
  | PDict "(string \<times> pyval) list"

datatype error = JSONDecodeError | KeyError string | TypeError | AttributeError | OSError

text \<open>\<^verbatim>\<open>data[key]\<close> with a str key: only a dict can be subscripted by a str.\<close>

fun getitem :: "pyval \<Rightarrow> string \<Rightarrow> error + pyval" where
  "getitem (PDict kvs) k = (case map_of kvs k of None \<Rightarrow> Inl (KeyError k) | Some v \<Rightarrow> Inr v)"
| "getitem _ k = Inl TypeError"

text \<open>\<^verbatim>\<open>data.get(key, default)\<close>; \<^verbatim>\<open>data.get(key)\<close> is \<^verbatim>\<open>data.get(key, None)\<close>.\<close>

fun dict_get :: "pyval \<Rightarrow> string \<Rightarrow> pyval \<Rightarrow> error + pyval" where
  "dict_get (PDict kvs) k d = Inr (case map_of kvs k of None \<Rightarrow> d | Some v \<Rightarrow> v)"
| "dict_get _ k d = Inl AttributeError"

text \<open>
  The items a \<^verbatim>\<open>for\<close> over a value yields: the elements of a list, the characters
  of a str, the keys of a dict; any other value is not iterable.
\<close>

fun iter :: "pyval \<Rightarrow> error + pyval list" where
  "iter (PList xs) = Inr xs"
| "iter (PStr s) = Inr (map (\<lambda>c. PStr [c]) s)"
| "iter (PDict kvs) = Inr (map (\<lambda>kv. PStr (fst kv)) kvs)"
| "iter _ = Inl TypeError"

text \<open>\<^verbatim>\<open>v == k\<close> for an int \<^verbatim>\<open>k\<close>: a bool is the int 0 or 1.\<close>

fun eq_int :: "pyval \<Rightarrow> int \<Rightarrow> bool" where
  "eq_int (PInt n) k = (n = k)"
| "eq_int (PBool b) k = ((if b then 1 else 0) = k)"
| "eq_int _ k = False"

text \<open>\<^verbatim>\<open>v == s\<close> for a str \<^verbatim>\<open>s\<close>.\<close>

fun eq_str :: "pyval \<Rightarrow> string \<Rightarrow> bool" where
  "eq_str (PStr x) s = (x = s)"
| "eq_str _ s = False"

text \<open>\<^verbatim>\<open>v + 1\<close>, as \<^verbatim>\<open>self.next_id += 1\<close> computes it (ints are unbounded).\<close>

fun add_one :: "pyval \<Rightarrow> error + pyval" where
  "add_one (PInt n) = Inr (PInt (n + 1))"
| "add_one (PBool b) = Inr (PInt ((if b then 1 else 0) + 1))"
| "add_one _ = Inl TypeError"

text \<open>\<^verbatim>\<open>a < b\<close> on ints, used to state the order of ids; false off the ints.\<close>

fun int_less :: "pyval \<Rightarrow> pyval \<Rightarrow> bool" where
  "int_less (PInt a) (PInt b) = (a < b)"
| "int_less _ _ = False"

section \<open>Task\<close>

text \<open>The attributes of a \<^verbatim>\<open>Task\<close>; \<open>id'\<close> is the attribute \<^verbatim>\<open>id\<close>.\<close>

record task =
  id' :: pyval
  title :: pyval
  description :: pyval
  status :: pyval
  created_at :: pyval
  completed_at :: pyval

text \<open>
  \<^verbatim>\<open>Task.__init__(title, description, task_id)\<close>. The argument \<open>now\<close> is what
  \<^verbatim>\<open>datetime.now().isoformat()\<close> returns at this call.
\<close>

definition Task_init :: "pyval \<Rightarrow> pyval \<Rightarrow> pyval \<Rightarrow> string \<Rightarrow> task" where
  "Task_init t d task_id now =
     \<lparr>id' = task_id, title = t, description = d, status = PStr ''pending'',
      created_at = PStr now, completed_at = PNone\<rparr>"

text \<open>\<^verbatim>\<open>Task.complete\<close>: no guard of its own.\<close>

definition complete :: "string \<Rightarrow> task \<Rightarrow> task" where
  "complete now self = self\<lparr>status := PStr ''completed'', completed_at := PStr now\<rparr>"

definition to_dict :: "task \<Rightarrow> pyval" where
  "to_dict self =
     PDict [(''id'', id' self), (''title'', title self), (''description'', description self),
            (''status'', status self), (''created_at'', created_at self),
            (''completed_at'', completed_at self)]"

text \<open>
  \<^verbatim>\<open>Task.from_dict\<close>: the arguments of the constructor are read in the order title,
  description, id; the constructor reads the clock, and the three assignments that
  follow overwrite status and both timestamps.
\<close>

definition from_dict :: "string \<Rightarrow> pyval \<Rightarrow> error + task" where
  "from_dict now data =
     (case getitem data ''title'' of Inl e \<Rightarrow> Inl e | Inr t \<Rightarrow>
     (case getitem data ''description'' of Inl e \<Rightarrow> Inl e | Inr d \<Rightarrow>
     (case getitem data ''id'' of Inl e \<Rightarrow> Inl e | Inr i \<Rightarrow>
     (case getitem data ''status'' of Inl e \<Rightarrow> Inl e | Inr st \<Rightarrow>
     (case getitem data ''created_at'' of Inl e \<Rightarrow> Inl e | Inr cr \<Rightarrow>
     (case dict_get data ''completed_at'' PNone of Inl e \<Rightarrow> Inl e | Inr co \<Rightarrow>
        Inr ((Task_init t d i now)\<lparr>status := st, created_at := cr,
               completed_at := co\<rparr>)))))))"

section \<open>TaskManager\<close>

text \<open>
  What a file holds: text that \<^verbatim>\<open>json.load\<close> rejects with a
  \<^verbatim>\<open>JSONDecodeError\<close>, or a JSON document, given as the value \<^verbatim>\<open>json.load\<close>
  returns for it. \<^verbatim>\<open>json.dump\<close> and \<^verbatim>\<open>json.load\<close> are the library's and are
  taken as inverse to each other on these values: a document written by
  \<^verbatim>\<open>json.dump(data, f)\<close> is \<open>Json data\<close>.
\<close>

datatype content = NotJson | Json pyval

text \<open>
  The state an operation runs in: the attributes of the \<^verbatim>\<open>TaskManager\<close> object
  (\<open>filename\<close>, \<open>tasks\<close>, \<open>next_id\<close>), the file system (\<open>disk\<close>: the content of
  each file that exists) and the errors \<^verbatim>\<open>load_tasks\<close> has printed (\<open>stdout\<close>:
  one entry per line \<^verbatim>\<open>Error loading tasks: ...\<close>).

  A method is a function from the state to its outcome and the state it leaves: \<open>Inr\<close>
  the returned value, \<open>Inl\<close> the exception that leaves the method. What was assigned
  before an exception stays assigned.
\<close>

record state =
  filename :: string
  tasks :: "task list"
  next_id :: pyval
  disk :: "string \<Rightarrow> content option"
  stdout :: "error list"

text \<open>
  What the file system does with a write: it succeeds, or \<^verbatim>\<open>open\<close> or the write
  raises \<^verbatim>\<open>OSError\<close> and leaves the file as given (absent, its old content, a
  truncated text).
\<close>

datatype io = Written | Fails "content option"

text \<open>The list comprehension of \<^verbatim>\<open>load_tasks\<close>: the first exception ends it.\<close>

fun from_dicts :: "string \<Rightarrow> pyval list \<Rightarrow> error + task list" where
  "from_dicts now [] = Inr []"
| "from_dicts now (x # xs) =
     (case from_dict now x of Inl e \<Rightarrow> Inl e | Inr t \<Rightarrow>
      (case from_dicts now xs of Inl e \<Rightarrow> Inl e | Inr ts \<Rightarrow> Inr (t # ts)))"

text \<open>The body of the \<^verbatim>\<open>try\<close> in \<^verbatim>\<open>load_tasks\<close>.\<close>

definition try_load :: "string \<Rightarrow> content \<Rightarrow> state \<Rightarrow> (error + unit) \<times> state" where
  "try_load now c self =
     (case c of
        NotJson \<Rightarrow> (Inl JSONDecodeError, self)
      | Json data \<Rightarrow>
          (case getitem data ''tasks'' of Inl e \<Rightarrow> (Inl e, self) | Inr ts \<Rightarrow>
          (case iter ts of Inl e \<Rightarrow> (Inl e, self) | Inr items \<Rightarrow>
          (case from_dicts now items of Inl e \<Rightarrow> (Inl e, self) | Inr loaded \<Rightarrow>
          (case dict_get data ''next_id'' (PInt 1) of
             Inl e \<Rightarrow> (Inl e, self\<lparr>tasks := loaded\<rparr>)
           | Inr n \<Rightarrow> (Inr (), self\<lparr>tasks := loaded, next_id := n\<rparr>))))))"

text \<open>\<^verbatim>\<open>except (json.JSONDecodeError, KeyError)\<close>: the exceptions the handler takes.\<close>

fun caught :: "error \<Rightarrow> bool" where
  "caught JSONDecodeError = True"
| "caught (KeyError k) = True"
| "caught _ = False"

definition load_tasks :: "string \<Rightarrow> state \<Rightarrow> (error + unit) \<times> state" where
  "load_tasks now self =
     (case disk self (filename self) of
        None \<Rightarrow> (Inr (), self)
      | Some c \<Rightarrow>
          (case try_load now c self of
             (Inr u, s) \<Rightarrow> (Inr u, s)
           | (Inl e, s) \<Rightarrow>
               if caught e
               then (Inr (), s\<lparr>stdout := stdout s @ [e], tasks := [], next_id := PInt 1\<rparr>)
               else (Inl e, s)))"

text \<open>\<^verbatim>\<open>TaskManager.__init__(filename)\<close>, run against the file system \<open>d\<close>.\<close>

definition new_manager :: "string \<Rightarrow> (string \<Rightarrow> content option) \<Rightarrow> state" where
  "new_manager fn d = \<lparr>filename = fn, tasks = [], next_id = PInt 1, disk = d, stdout = []\<rparr>"

definition TaskManager_init ::
  "string \<Rightarrow> string \<Rightarrow> (string \<Rightarrow> content option) \<Rightarrow> (error + unit) \<times> state" where
  "TaskManager_init now fn d = load_tasks now (new_manager fn d)"

definition save_tasks :: "io \<Rightarrow> state \<Rightarrow> (error + unit) \<times> state" where
  "save_tasks w self =
     (let data = PDict [(''tasks'', PList (map to_dict (tasks self))),
                        (''next_id'', next_id self)]
      in case w of
           Written \<Rightarrow> (Inr (), self\<lparr>disk := (disk self)(filename self \<mapsto> Json data)\<rparr>)
         | Fails c \<Rightarrow> (Inl OSError, self\<lparr>disk := (disk self)(filename self := c)\<rparr>))"

definition add_task :: "string \<Rightarrow> string \<Rightarrow> string \<Rightarrow> io \<Rightarrow> state \<Rightarrow> (error + task) \<times> state" where
  "add_task t d now w self =
     (let task = Task_init (PStr t) (PStr d) (next_id self) now;
          s1 = self\<lparr>tasks := tasks self @ [task]\<rparr>
      in case add_one (next_id s1) of
           Inl e \<Rightarrow> (Inl e, s1)
         | Inr n \<Rightarrow>
             (case save_tasks w (s1\<lparr>next_id := n\<rparr>) of
                (Inl e, s2) \<Rightarrow> (Inl e, s2)
              | (Inr u, s2) \<Rightarrow> (Inr task, s2)))"

text \<open>
  \<^verbatim>\<open>list_tasks(status)\<close>: \<^verbatim>\<open>if status\<close> is false for \<^verbatim>\<open>None\<close> and for the
  empty str.
\<close>

definition list_tasks :: "string option \<Rightarrow> state \<Rightarrow> (error + task list) \<times> state" where
  "list_tasks st self =
     (case st of
        None \<Rightarrow> (Inr (tasks self), self)
      | Some x \<Rightarrow>
          if x \<noteq> [] then (Inr [task \<leftarrow> tasks self. eq_str (status task) x], self)
          else (Inr (tasks self), self))"

text \<open>\<^verbatim>\<open>get_task\<close>: the first task of the list whose id equals \<open>task_id\<close>.\<close>

definition get_task :: "int \<Rightarrow> state \<Rightarrow> (error + task option) \<times> state" where
  "get_task task_id self = (Inr (find (\<lambda>task. eq_int (id' task) task_id) (tasks self)), self)"

text \<open>
  \<^verbatim>\<open>task.complete()\<close> changes the object \<^verbatim>\<open>get_task\<close> returned, which is the first
  element of \<^verbatim>\<open>self.tasks\<close> with that id; \<^verbatim>\<open>self.tasks.remove(task)\<close> removes
  that element (a \<^verbatim>\<open>Task\<close> equals only itself).
\<close>

fun update_first :: "('a \<Rightarrow> bool) \<Rightarrow> ('a \<Rightarrow> 'a) \<Rightarrow> 'a list \<Rightarrow> 'a list" where
  "update_first P f [] = []"
| "update_first P f (x # xs) = (if P x then f x # xs else x # update_first P f xs)"

fun remove_first :: "('a \<Rightarrow> bool) \<Rightarrow> 'a list \<Rightarrow> 'a list" where
  "remove_first P [] = []"
| "remove_first P (x # xs) = (if P x then xs else x # remove_first P xs)"

definition complete_task :: "int \<Rightarrow> string \<Rightarrow> io \<Rightarrow> state \<Rightarrow> (error + bool) \<times> state" where
  "complete_task task_id now w self =
     (case get_task task_id self of
        (Inl e, s1) \<Rightarrow> (Inl e, s1)
      | (Inr None, s1) \<Rightarrow> (Inr False, s1)
      | (Inr (Some task), s1) \<Rightarrow>
          if \<not> eq_str (status task) ''completed''
          then (case save_tasks w
                       (s1\<lparr>tasks := update_first (\<lambda>t. eq_int (id' t) task_id) (complete now)
                                      (tasks s1)\<rparr>) of
                  (Inl e, s2) \<Rightarrow> (Inl e, s2)
                | (Inr u, s2) \<Rightarrow> (Inr True, s2))
          else (Inr False, s1))"

definition delete_task :: "int \<Rightarrow> io \<Rightarrow> state \<Rightarrow> (error + bool) \<times> state" where
  "delete_task task_id w self =
     (case get_task task_id self of
        (Inl e, s1) \<Rightarrow> (Inl e, s1)
      | (Inr None, s1) \<Rightarrow> (Inr False, s1)
      | (Inr (Some task), s1) \<Rightarrow>
          (case save_tasks w
                  (s1\<lparr>tasks := remove_first (\<lambda>t. eq_int (id' t) task_id) (tasks s1)\<rparr>) of
             (Inl e, s2) \<Rightarrow> (Inl e, s2)
           | (Inr u, s2) \<Rightarrow> (Inr True, s2)))"

text \<open>\<^verbatim>\<open>get_statistics\<close>: the dict with the keys total, completed and pending.\<close>

definition get_statistics :: "state \<Rightarrow> (error + (string \<times> int) list) \<times> state" where
  "get_statistics self =
     (let total = int (length (tasks self));
          completed = int (length [t \<leftarrow> tasks self. eq_str (status t) ''completed'']);
          pending = total - completed
      in (Inr [(''total'', total), (''completed'', completed), (''pending'', pending)], self))"

section \<open>Sequences of operations\<close>

text \<open>
  A call of a mutating method comes with what its environment gives it: the clock's
  reading and what the file system does with the write.
\<close>

datatype op = Add string string | Complete int | Delete int

datatype result = RTask task | RBool bool

fun lift :: "('a \<Rightarrow> result) \<Rightarrow> (error + 'a) \<times> state \<Rightarrow> (error + result) \<times> state" where
  "lift f (Inl e, s) = (Inl e, s)"
| "lift f (Inr x, s) = (Inr (f x), s)"

fun step :: "op \<times> string \<times> io \<Rightarrow> state \<Rightarrow> (error + result) \<times> state" where
  "step (Add t d, now, w) s = lift RTask (add_task t d now w s)"
| "step (Complete i, now, w) s = lift RBool (complete_task i now w s)"
| "step (Delete i, now, w) s = lift RBool (delete_task i w s)"

text \<open>
  The state after a sequence of calls on one manager; a caller that catches an exception
  goes on with the state the failed call left.
\<close>

fun run :: "(op \<times> string \<times> io) list \<Rightarrow> state \<Rightarrow> state" where
  "run [] s = s"
| "run (c # cs) s = run cs (snd (step c s))"

text \<open>What each call of the sequence returned or raised.\<close>

fun outcomes :: "(op \<times> string \<times> io) list \<Rightarrow> state \<Rightarrow> (error + result) list" where
  "outcomes [] s = []"
| "outcomes (c # cs) s = fst (step c s) # outcomes cs (snd (step c s))"

section \<open>Predicates of the properties, and example stores\<close>

text \<open>The ids of the tasks that the \<^verbatim>\<open>add_task\<close> calls of a sequence returned, in order.\<close>

fun added_ids :: "(error + result) list \<Rightarrow> pyval list" where
  "added_ids [] = []"
| "added_ids (Inr (RTask t) # rs) = id' t # added_ids rs"
| "added_ids (_ # rs) = added_ids rs"

text \<open>
  The invariant of the counter: \<open>next_id\<close> is the int \<open>n\<close>, and the ids of the tasks are
  ints in strictly increasing order, all below \<open>n\<close>.
\<close>

definition ids_below :: "int \<Rightarrow> state \<Rightarrow> bool" where
  "ids_below n s \<longleftrightarrow>
     next_id s = PInt n
     \<and> (\<exists>is. map id' (tasks s) = map PInt is \<and> sorted_wrt (<) is \<and> (\<forall>i\<in>set is. i < n))"

text \<open>A task's \<open>completed_at\<close> is set exactly when its status is completed.\<close>

definition coupled :: "task \<Rightarrow> bool" where
  "coupled t \<longleftrightarrow> (completed_at t \<noteq> PNone) = (status t = PStr ''completed'')"


text \<open>File systems: no file at all, and one file with a given content.\<close>

definition no_files :: "string \<Rightarrow> content option" where
  "no_files = (\<lambda>f. None)"

definition only_file :: "string \<Rightarrow> content \<Rightarrow> string \<Rightarrow> content option" where
  "only_file fn c = (\<lambda>f. if f = fn then Some c else None)"

text \<open>The store after one \<^verbatim>\<open>add_task\<close> on an empty store, and the task it holds.\<close>

definition one_task :: state where
  "one_task = snd (add_task ''a'' [] ''t0'' Written (new_manager ''tasks.json'' no_files))"

definition first_task :: task where
  "first_task = Task_init (PStr ''a'') (PStr []) (PInt 1) ''t0''"

text \<open>
  A file whose \<^verbatim>\<open>next_id\<close> is a str, and the store the constructor builds from it:
  \<^verbatim>\<open>load_tasks\<close> takes the value of \<^verbatim>\<open>next_id\<close> as it is.
\<close>

definition str_counter_file :: "string \<Rightarrow> content option" where
  "str_counter_file =
     only_file ''tasks.json'' (Json (PDict [(''tasks'', PList []), (''next_id'', PStr ''x'')]))"

definition str_counter :: state where
  "str_counter = snd (TaskManager_init ''t0'' ''tasks.json'' str_counter_file)"

text \<open>Three tasks added, the second deleted, a fourth added.\<close>

definition scenario3 :: "(op \<times> string \<times> io) list" where
  "scenario3 =
     [(Add ''a'' [], ''t1'', Written), (Add ''b'' [], ''t2'', Written),
      (Add ''c'' [], ''t3'', Written), (Delete 2, ''t4'', Written),
      (Add ''d'' [], ''t5'', Written)]"

text \<open>Two tasks added, the first completed; the write of the second call fails.\<close>

definition two_calls :: "(op \<times> string \<times> io) list" where
  "two_calls =
     [(Add ''a'' [], ''t1'', Written), (Add ''b'' ''x'', ''t2'', Fails None),
      (Complete 1, ''t3'', Written)]"

definition task_a_done :: task where
  "task_a_done =
     \<lparr>id' = PInt 1, title = PStr ''a'', description = PStr [], status = PStr ''completed'',
      created_at = PStr ''t1'', completed_at = PStr ''t3''\<rparr>"

definition task_b :: task where
  "task_b =
     \<lparr>id' = PInt 2, title = PStr ''b'', description = PStr ''x'', status = PStr ''pending'',
      created_at = PStr ''t2'', completed_at = PNone\<rparr>"

section \<open>Facts about the operations\<close>

lemma save_tasks_Written:
  "save_tasks Written s =
     (Inr (), s\<lparr>disk := (disk s)(filename s \<mapsto>
        Json (PDict [(''tasks'', PList (map to_dict (tasks s))), (''next_id'', next_id s)]))\<rparr>)"
  by (simp add: save_tasks_def)

lemma save_tasks_Fails:
  "save_tasks (Fails c) s = (Inl OSError, s\<lparr>disk := (disk s)(filename s := c)\<rparr>)"
  by (simp add: save_tasks_def)

lemma save_tasks_fields [simp]:
  "tasks (snd (save_tasks w s)) = tasks s"
  "next_id (snd (save_tasks w s)) = next_id s"
  "filename (snd (save_tasks w s)) = filename s"
  "stdout (snd (save_tasks w s)) = stdout s"
  by (cases w; simp add: save_tasks_def)+

lemma to_dict_fields:
  "to_dict =
     (\<lambda>u. PDict [(''id'', id' u), (''title'', title u), (''description'', description u),
                 (''status'', status u), (''created_at'', created_at u),
                 (''completed_at'', completed_at u)])"
  by (rule ext) (simp add: to_dict_def)

lemma eq_str_iff: "eq_str v s \<longleftrightarrow> v = PStr s"
  by (cases v) auto

lemma find_None_set: "find P xs = None \<longleftrightarrow> (\<forall>x\<in>set xs. \<not> P x)"
  by (induction xs) auto

text \<open>The first element with a property splits the list around it.\<close>

lemma find_split:
  "find P xs = Some t \<Longrightarrow> \<exists>bs as. xs = bs @ t # as \<and> (\<forall>b\<in>set bs. \<not> P b) \<and> P t"
proof (induction xs)
  case Nil
  then show ?case by simp
next
  case (Cons x xs)
  show ?case
  proof (cases "P x")
    case True
    with Cons.prems have "x = t" by simp
    with True have "x # xs = [] @ t # xs \<and> (\<forall>b\<in>set []. \<not> P b) \<and> P t" by simp
    then show ?thesis by blast
  next
    case False
    with Cons obtain bs as where "xs = bs @ t # as" "\<forall>b\<in>set bs. \<not> P b" "P t" by auto
    with False have "x # xs = (x # bs) @ t # as \<and> (\<forall>b\<in>set (x # bs). \<not> P b) \<and> P t" by simp
    then show ?thesis by blast
  qed
qed

lemma update_first_split:
  "\<forall>b\<in>set bs. \<not> P b \<Longrightarrow> P t \<Longrightarrow> update_first P f (bs @ t # as) = bs @ f t # as"
  by (induction bs) simp_all

lemma remove_first_split:
  "\<forall>b\<in>set bs. \<not> P b \<Longrightarrow> P t \<Longrightarrow> remove_first P (bs @ t # as) = bs @ as"
  by (induction bs) simp_all


lemma set_update_first: "set (update_first P f xs) \<subseteq> set xs \<union> f ` set xs"
  by (induction xs) auto

lemma set_remove_first: "set (remove_first P xs) \<subseteq> set xs"
  by (induction xs) auto

lemma remove_first_cases:
  "remove_first P xs = xs \<or> (\<exists>bs x as. xs = bs @ x # as \<and> remove_first P xs = bs @ as)"
proof (cases "find P xs")
  case None
  then have "\<forall>x\<in>set xs. \<not> P x" by (simp add: find_None_set)
  then have "remove_first P xs = xs" by (induction xs) simp_all
  then show ?thesis ..
next
  case (Some t)
  from find_split [OF this] obtain bs as where
    "xs = bs @ t # as" "\<forall>b\<in>set bs. \<not> P b" "P t" by blast
  then have "xs = bs @ t # as \<and> remove_first P xs = bs @ as"
    by (simp add: remove_first_split)
  then show ?thesis by blast
qed

lemma eq_int_complete [simp]: "eq_int (id' (complete now t)) i = eq_int (id' t) i"
  by (simp add: complete_def)

lemma map_id_update_first [simp]:
  "map id' (update_first P (complete now) ts) = map id' ts"
  by (induction ts) (simp_all add: complete_def)

lemma snd_lift [simp]: "snd (lift f p) = snd p"
  by (cases p; cases "fst p") auto

lemma fst_lift_RBool: "fst (lift RBool p) \<noteq> Inr (RTask t)"
  by (cases p; cases "fst p") auto

lemma get_task_eq: "get_task i s = (Inr (find (\<lambda>t. eq_int (id' t) i) (tasks s)), s)"
  by (simp add: get_task_def)

section \<open>Read-only operations\<close>

text \<open>
  C9. The read-only operations \<^verbatim>\<open>list_tasks\<close>, \<^verbatim>\<open>get_task\<close> and
  \<^verbatim>\<open>get_statistics\<close> leave the whole state as it was: the task sequence, every
  field of every task, \<open>next_id\<close>, and the file system (they write no file).
\<close>

theorem read_only_frame:
  "snd (list_tasks st s) = s \<and> snd (get_task i s) = s \<and> snd (get_statistics s) = s"
  by (simp add: list_tasks_def get_task_def get_statistics_def Let_def split: option.split)

section \<open>Adding a task\<close>

text \<open>
  With an int counter, \<^verbatim>\<open>add_task\<close> appends the new task and increments the counter
  before it saves, whatever the write then does.
\<close>

lemma add_task_int:
  "next_id s = PInt n \<Longrightarrow>
   add_task t d now w s =
     (case w of Written \<Rightarrow> Inr (Task_init (PStr t) (PStr d) (PInt n) now) | Fails c \<Rightarrow> Inl OSError,
      snd (save_tasks w (s\<lparr>tasks := tasks s @ [Task_init (PStr t) (PStr d) (PInt n) now],
                            next_id := PInt (n + 1)\<rparr>)))"
  by (cases w) (simp_all add: add_task_def Let_def save_tasks_def)

lemma add_task_tasks:
  "tasks (snd (add_task t d now w s)) = tasks s @ [Task_init (PStr t) (PStr d) (next_id s) now]"
  by (cases "add_one (next_id s)"; cases w) (simp_all add: add_task_def Let_def save_tasks_def)

lemma one_task_eval:
  "tasks one_task = [first_task]" "next_id one_task = PInt 2"
  by (simp_all add: one_task_def first_task_def add_task_def new_manager_def save_tasks_def
      Let_def)

text \<open>
  C6, as the code has it. The claim holds for the stores whose counter \<open>next_id\<close> is an
  int, not for every store: \<^verbatim>\<open>load_tasks\<close> takes the counter from the file unchecked.
  For every store whose \<open>next_id\<close> is an int \<open>n\<close> and every title and description,
  \<^verbatim>\<open>add_task\<close> with a write that succeeds returns a new task whose id is \<open>n\<close>, with the
  given title and description, status pending, \<open>created_at\<close> the clock's reading and
  \<open>completed_at\<close> \<^verbatim>\<open>None\<close>; the task is appended at the end of the task sequence,
  \<open>next_id\<close> becomes \<open>n + 1\<close>, and the file of the store holds the document of the new
  state: one object per task, the earlier tasks first and the new task last, each with
  its six fields, and the new counter (no other file changes). On the store the
  constructor builds when there is no file the returned task has id 1 (the witness).
\<close>

theorem add_task_spec:
  assumes "next_id s = PInt n"
  shows "\<exists>task s'. add_task t d now Written s = (Inr task, s')
           \<and> task = \<lparr>id' = PInt n, title = PStr t, description = PStr d,
                      status = PStr ''pending'', created_at = PStr now, completed_at = PNone\<rparr>
           \<and> tasks s' = tasks s @ [task]
           \<and> next_id s' = PInt (n + 1)
           \<and> filename s' = filename s
           \<and> disk s' (filename s) =
                Some (Json (PDict
                  [(''tasks'',
                    PList (map (\<lambda>u. PDict [(''id'', id' u), (''title'', title u),
                                           (''description'', description u),
                                           (''status'', status u),
                                           (''created_at'', created_at u),
                                           (''completed_at'', completed_at u)]) (tasks s)
                           @ [PDict [(''id'', PInt n), (''title'', PStr t),
                                     (''description'', PStr d),
                                     (''status'', PStr ''pending''),
                                     (''created_at'', PStr now),
                                     (''completed_at'', PNone)]])),
                   (''next_id'', PInt (n + 1))]))
           \<and> (\<forall>f. f \<noteq> filename s \<longrightarrow> disk s' f = disk s f)"
  using assms
  by (simp add: add_task_int save_tasks_Written Task_init_def to_dict_fields)

theorem add_task_spec_witness:
  "next_id (new_manager ''tasks.json'' no_files) = PInt 1
   \<and> fst (add_task ''Buy milk'' [] ''2024-01-01T00:00:00'' Written
          (new_manager ''tasks.json'' no_files))
     = Inr \<lparr>id' = PInt 1, title = PStr ''Buy milk'', description = PStr [],
             status = PStr ''pending'', created_at = PStr ''2024-01-01T00:00:00'',
             completed_at = PNone\<rparr>
   \<and> disk (snd (add_task ''Buy milk'' [] ''2024-01-01T00:00:00'' Written
                 (new_manager ''tasks.json'' no_files))) ''tasks.json''
     = Some (Json (PDict
         [(''tasks'',
           PList [PDict [(''id'', PInt 1), (''title'', PStr ''Buy milk''),
                         (''description'', PStr []), (''status'', PStr ''pending''),
                         (''created_at'', PStr ''2024-01-01T00:00:00''),
                         (''completed_at'', PNone)]]),
          (''next_id'', PInt 2)]))"
proof -
  have h: "next_id (new_manager ''tasks.json'' no_files) = PInt 1"
    by (simp add: new_manager_def)
  have e: "tasks (new_manager ''tasks.json'' no_files) = []"
    "filename (new_manager ''tasks.json'' no_files) = ''tasks.json''"
    by (simp_all add: new_manager_def)
  from add_task_spec [OF h, of "''Buy milk''" "[]" "''2024-01-01T00:00:00''"] h
  show ?thesis unfolding e by auto
qed

text \<open>
  A store that \<^verbatim>\<open>add_task\<close> fails on: the constructor loads a file whose \<^verbatim>\<open>next_id\<close>
  is the str \<^verbatim>\<open>"x"\<close> without an error, and the store's counter is that str. On this
  store \<^verbatim>\<open>add_task\<close> appends a task whose id is the str, then raises \<^verbatim>\<open>TypeError\<close> at
  \<^verbatim>\<open>self.next_id += 1\<close>: no task is returned, the counter is not incremented and the
  file is not written.
\<close>

theorem add_task_str_counter_counterexample:
  "TaskManager_init ''t0'' ''tasks.json'' str_counter_file = (Inr (), str_counter)
   \<and> tasks str_counter = [] \<and> next_id str_counter = PStr ''x''
   \<and> add_task ''a'' [] ''t1'' Written str_counter
     = (Inl TypeError,
        str_counter\<lparr>tasks := [\<lparr>id' = PStr ''x'', title = PStr ''a'', description = PStr [],
                                 status = PStr ''pending'', created_at = PStr ''t1'',
                                 completed_at = PNone\<rparr>]\<rparr>)"
  by (simp add: str_counter_def str_counter_file_def only_file_def TaskManager_init_def
      load_tasks_def try_load_def new_manager_def add_task_def Task_init_def Let_def)

section \<open>Completing a task\<close>

lemma complete_task_None:
  "find (\<lambda>t. eq_int (id' t) i) (tasks s) = None \<Longrightarrow> complete_task i now w s = (Inr False, s)"
  by (simp add: complete_task_def get_task_eq)

lemma complete_task_done:
  "find (\<lambda>t. eq_int (id' t) i) (tasks s) = Some task \<Longrightarrow> eq_str (status task) ''completed'' \<Longrightarrow>
   complete_task i now w s = (Inr False, s)"
  by (simp add: complete_task_def get_task_eq)

lemma complete_task_todo:
  "find (\<lambda>t. eq_int (id' t) i) (tasks s) = Some task \<Longrightarrow> \<not> eq_str (status task) ''completed'' \<Longrightarrow>
   complete_task i now w s =
     (case w of Written \<Rightarrow> Inr True | Fails c \<Rightarrow> Inl OSError,
      snd (save_tasks w (s\<lparr>tasks := update_first (\<lambda>t. eq_int (id' t) i) (complete now)
                                      (tasks s)\<rparr>)))"
  by (cases w) (simp_all add: complete_task_def get_task_eq save_tasks_def)

lemma complete_task_tasks:
  "tasks (snd (complete_task i now w s)) = tasks s
   \<or> tasks (snd (complete_task i now w s))
       = update_first (\<lambda>t. eq_int (id' t) i) (complete now) (tasks s)"
proof (cases "find (\<lambda>t. eq_int (id' t) i) (tasks s)")
  case None
  then show ?thesis by (simp add: complete_task_None)
next
  case (Some task)
  then show ?thesis
    by (cases "eq_str (status task) ''completed''")
      (simp_all add: complete_task_done complete_task_todo)
qed




section \<open>Deleting a task\<close>

lemma delete_task_None:
  "find (\<lambda>t. eq_int (id' t) i) (tasks s) = None \<Longrightarrow> delete_task i w s = (Inr False, s)"
  by (simp add: delete_task_def get_task_eq)

lemma delete_task_Some:
  "find (\<lambda>t. eq_int (id' t) i) (tasks s) = Some task \<Longrightarrow>
   delete_task i w s =
     (case w of Written \<Rightarrow> Inr True | Fails c \<Rightarrow> Inl OSError,
      snd (save_tasks w (s\<lparr>tasks := remove_first (\<lambda>t. eq_int (id' t) i) (tasks s)\<rparr>)))"
  by (cases w) (simp_all add: delete_task_def get_task_eq save_tasks_def)

lemma delete_task_tasks:
  "tasks (snd (delete_task i w s)) = tasks s
   \<or> tasks (snd (delete_task i w s)) = remove_first (\<lambda>t. eq_int (id' t) i) (tasks s)"
  by (cases "find (\<lambda>t. eq_int (id' t) i) (tasks s)")
    (simp_all add: delete_task_None delete_task_Some)

section \<open>Listing tasks\<close>

lemma filter_eq_str: "filter (\<lambda>t. eq_str (status t) f) xs = filter (\<lambda>t. status t = PStr f) xs"
  by (simp add: eq_str_iff)

lemma two_calls_eval:
  "tasks (run two_calls (new_manager ''tasks.json'' no_files)) = [task_a_done, task_b]"
  by (simp add: two_calls_def new_manager_def add_task_def complete_task_def get_task_def
      save_tasks_def Task_init_def complete_def task_a_done_def task_b_def Let_def)

text \<open>
  C7. For every store and each of the filter values pending and completed,
  \<^verbatim>\<open>list_tasks\<close> returns, without an error and without changing the store, the tasks whose
  status equals the filter: the result is the task list filtered by that test, so it has
  exactly those tasks, is a subsequence of the task list (insertion order is kept), and is
  empty when no task matches. With no filter it returns the whole task list.
\<close>

theorem list_tasks_spec:
  "(f = ''pending'' \<or> f = ''completed'' \<longrightarrow>
      (\<exists>r. list_tasks (Some f) s = (Inr r, s)
          \<and> r = filter (\<lambda>t. status t = PStr f) (tasks s)
          \<and> set r = {t \<in> set (tasks s). status t = PStr f}
          \<and> subseq r (tasks s)
          \<and> ((\<forall>t\<in>set (tasks s). status t \<noteq> PStr f) \<longrightarrow> r = [])))
   \<and> list_tasks None s = (Inr (tasks s), s)"
proof (intro conjI impI)
  assume "f = ''pending'' \<or> f = ''completed''"
  then have "f \<noteq> []" by auto
  then have "list_tasks (Some f) s = (Inr (filter (\<lambda>t. status t = PStr f) (tasks s)), s)"
    by (simp add: list_tasks_def filter_eq_str)
  moreover have "(\<forall>t\<in>set (tasks s). status t \<noteq> PStr f) \<longrightarrow>
      filter (\<lambda>t. status t = PStr f) (tasks s) = []"
    by (simp add: filter_empty_conv)
  ultimately show "\<exists>r. list_tasks (Some f) s = (Inr r, s)
          \<and> r = filter (\<lambda>t. status t = PStr f) (tasks s)
          \<and> set r = {t \<in> set (tasks s). status t = PStr f}
          \<and> subseq r (tasks s)
          \<and> ((\<forall>t\<in>set (tasks s). status t \<noteq> PStr f) \<longrightarrow> r = [])"
    by simp
next
  show "list_tasks None s = (Inr (tasks s), s)"
    by (simp add: list_tasks_def)
qed

theorem list_tasks_spec_witness:
  "fst (list_tasks (Some ''completed'') (run two_calls (new_manager ''tasks.json'' no_files)))
     = Inr [task_a_done]
   \<and> fst (list_tasks (Some ''pending'') (run two_calls (new_manager ''tasks.json'' no_files)))
     = Inr [task_b]
   \<and> fst (list_tasks None (run two_calls (new_manager ''tasks.json'' no_files)))
     = Inr [task_a_done, task_b]"
proof -
  let ?s = "run two_calls (new_manager ''tasks.json'' no_files)"
  have 1: "fst (list_tasks (Some ''completed'') ?s)
      = Inr (filter (\<lambda>t. status t = PStr ''completed'') (tasks ?s))"
    using list_tasks_spec [of "''completed''" ?s] by auto
  have 2: "fst (list_tasks (Some ''pending'') ?s)
      = Inr (filter (\<lambda>t. status t = PStr ''pending'') (tasks ?s))"
    using list_tasks_spec [of "''pending''" ?s] by auto
  have 3: "fst (list_tasks None ?s) = Inr (tasks ?s)"
    using list_tasks_spec [of "''pending''" ?s] by auto
  show ?thesis
    unfolding 1 2 3 two_calls_eval by (simp add: task_a_done_def task_b_def)
qed

section \<open>A write that fails\<close>

text \<open>
  C8. When the write of the file fails, each mutating operation raises the error of the
  write (\<^verbatim>\<open>OSError\<close>) and leaves the store changed: \<^verbatim>\<open>add_task\<close> (on a store whose counter
  is an int) has appended the new task and incremented \<open>next_id\<close>; \<^verbatim>\<open>complete_task\<close> on a
  pending task has set its status and \<open>completed_at\<close>; \<^verbatim>\<open>delete_task\<close> on an existing
  task has removed it. The file is what the failed write left, not the new store.
\<close>

theorem save_failure_keeps_mutation:
  "(\<forall>n. next_id s = PInt n \<longrightarrow>
      (\<exists>s'. add_task t d now (Fails c) s = (Inl OSError, s')
         \<and> tasks s' = tasks s @ [Task_init (PStr t) (PStr d) (PInt n) now]
         \<and> next_id s' = PInt (n + 1)
         \<and> disk s' (filename s) = c))
   \<and> (\<forall>task. fst (get_task i s) = Inr (Some task) \<and> status task = PStr ''pending'' \<longrightarrow>
      (\<exists>bs as s'. complete_task i now (Fails c) s = (Inl OSError, s')
         \<and> tasks s = bs @ task # as
         \<and> tasks s' = bs @ task\<lparr>status := PStr ''completed'', completed_at := PStr now\<rparr> # as
         \<and> next_id s' = next_id s
         \<and> disk s' (filename s) = c))
   \<and> (\<forall>task. fst (get_task i s) = Inr (Some task) \<longrightarrow>
      (\<exists>bs as s'. delete_task i (Fails c) s = (Inl OSError, s')
         \<and> tasks s = bs @ task # as
         \<and> tasks s' = bs @ as
         \<and> next_id s' = next_id s
         \<and> disk s' (filename s) = c))"
proof (intro conjI allI impI)
  fix n assume "next_id s = PInt n"
  then show "\<exists>s'. add_task t d now (Fails c) s = (Inl OSError, s')
         \<and> tasks s' = tasks s @ [Task_init (PStr t) (PStr d) (PInt n) now]
         \<and> next_id s' = PInt (n + 1)
         \<and> disk s' (filename s) = c"
    by (simp add: add_task_int save_tasks_Fails)
next
  fix task
  assume "fst (get_task i s) = Inr (Some task) \<and> status task = PStr ''pending''"
  then have f: "find (\<lambda>t. eq_int (id' t) i) (tasks s) = Some task"
    and p: "\<not> eq_str (status task) ''completed''"
    by (simp_all add: get_task_eq)
  from find_split [OF f] obtain bs as where
    split: "tasks s = bs @ task # as" "\<forall>b\<in>set bs. \<not> eq_int (id' b) i" "eq_int (id' task) i"
    by blast
  let ?s' = "snd (complete_task i now (Fails c) s)"
  have "complete_task i now (Fails c) s = (Inl OSError, ?s')"
    using f p by (simp add: complete_task_todo)
  moreover have "tasks ?s' = bs @ complete now task # as"
    using f p split by (simp add: complete_task_todo update_first_split)
  moreover have "next_id ?s' = next_id s"
    using f p by (simp add: complete_task_todo)
  moreover have "disk ?s' (filename s) = c"
    using f p by (simp add: complete_task_todo save_tasks_Fails)
  ultimately show "\<exists>bs as s'. complete_task i now (Fails c) s = (Inl OSError, s')
         \<and> tasks s = bs @ task # as
         \<and> tasks s' = bs @ task\<lparr>status := PStr ''completed'', completed_at := PStr now\<rparr> # as
         \<and> next_id s' = next_id s
         \<and> disk s' (filename s) = c"
    using split(1) unfolding complete_def by blast
next
  fix task
  assume "fst (get_task i s) = Inr (Some task)"
  then have f: "find (\<lambda>t. eq_int (id' t) i) (tasks s) = Some task"
    by (simp add: get_task_eq)
  from find_split [OF f] obtain bs as where
    split: "tasks s = bs @ task # as" "\<forall>b\<in>set bs. \<not> eq_int (id' b) i" "eq_int (id' task) i"
    by blast
  let ?s' = "snd (delete_task i (Fails c) s)"
  have "delete_task i (Fails c) s = (Inl OSError, ?s')"
    using f by (simp add: delete_task_Some)
  moreover have "tasks ?s' = bs @ as"
    using f split by (simp add: delete_task_Some remove_first_split)
  moreover have "next_id ?s' = next_id s"
    using f by (simp add: delete_task_Some)
  moreover have "disk ?s' (filename s) = c"
    using f by (simp add: delete_task_Some save_tasks_Fails)
  ultimately show "\<exists>bs as s'. delete_task i (Fails c) s = (Inl OSError, s')
         \<and> tasks s = bs @ task # as
         \<and> tasks s' = bs @ as
         \<and> next_id s' = next_id s
         \<and> disk s' (filename s) = c"
    using split(1) by blast
qed

theorem save_failure_keeps_mutation_witness:
  "fst (add_task ''b'' [] ''t1'' (Fails None) one_task) = Inl OSError
   \<and> tasks (snd (add_task ''b'' [] ''t1'' (Fails None) one_task))
       = [first_task, Task_init (PStr ''b'') (PStr []) (PInt 2) ''t1'']
   \<and> next_id (snd (add_task ''b'' [] ''t1'' (Fails None) one_task)) = PInt 3
   \<and> fst (complete_task 1 ''t1'' (Fails None) one_task) = Inl OSError
   \<and> tasks (snd (complete_task 1 ''t1'' (Fails None) one_task))
       = [first_task\<lparr>status := PStr ''completed'', completed_at := PStr ''t1''\<rparr>]
   \<and> fst (delete_task 1 (Fails None) one_task) = Inl OSError
   \<and> tasks (snd (delete_task 1 (Fails None) one_task)) = []"
proof -
  note th = save_failure_keeps_mutation
    [where s = one_task and t = "''b''" and d = "[]" and now = "''t1''" and c = None and i = 1]
  have g: "fst (get_task 1 one_task) = Inr (Some first_task)"
    and p: "status first_task = PStr ''pending''"
    by (simp add: get_task_def one_task_eval) (simp_all add: first_task_def Task_init_def)
  from th one_task_eval(2) obtain s1 where
    a: "add_task ''b'' [] ''t1'' (Fails None) one_task = (Inl OSError, s1)"
       "tasks s1 = tasks one_task @ [Task_init (PStr ''b'') (PStr []) (PInt 2) ''t1'']"
       "next_id s1 = PInt (2 + 1)"
    by blast
  from th g p obtain bs as s2 where
    c: "complete_task 1 ''t1'' (Fails None) one_task = (Inl OSError, s2)"
       "tasks one_task = bs @ first_task # as"
       "tasks s2 = bs @ first_task\<lparr>status := PStr ''completed'', completed_at := PStr ''t1''\<rparr> # as"
    by blast
  from th g obtain bs' as' s3 where
    d: "delete_task 1 (Fails None) one_task = (Inl OSError, s3)"
       "tasks one_task = bs' @ first_task # as'"
       "tasks s3 = bs' @ as'"
    by blast
  from c(2) have "bs = []" "as = []"
    by (simp_all add: one_task_eval Cons_eq_append_conv)
  moreover from d(2) have "bs' = []" "as' = []"
    by (simp_all add: one_task_eval Cons_eq_append_conv)
  ultimately show ?thesis
    using a c(1,3) d(1,3) by (simp add: one_task_eval)
qed

section \<open>The ids of a reachable store\<close>

text \<open>
  Every call keeps the invariant \<open>ids_below\<close>, and the counter never goes down:
  \<^verbatim>\<open>add_task\<close> appends the id \<open>n\<close> and moves the counter to \<open>n + 1\<close>, whatever the
  write does; \<^verbatim>\<open>complete_task\<close> changes no id; \<^verbatim>\<open>delete_task\<close> removes one element.
\<close>

lemma map_PInt_split:
  "map PInt is = xs @ y # zs \<Longrightarrow>
   \<exists>js k ls. is = js @ k # ls \<and> xs = map PInt js \<and> y = PInt k \<and> zs = map PInt ls"
  by (auto simp add: map_eq_append_conv map_eq_Cons_conv)

lemma sorted_wrt_int_less: "sorted_wrt int_less (map PInt is) = sorted_wrt (<) is"
  by (simp add: sorted_wrt_map)

lemma ids_below_new: "ids_below 1 (new_manager fn d)"
  by (simp add: ids_below_def new_manager_def)

lemma ids_below_add:
  assumes "ids_below n s"
  shows "ids_below (n + 1) (snd (add_task t d now w s))"
proof -
  from assms obtain "is" where
    nx: "next_id s = PInt n" and
    ids: "map id' (tasks s) = map PInt is" "sorted_wrt (<) is" "\<forall>i\<in>set is. i < n"
    by (auto simp add: ids_below_def)
  let ?s' = "snd (add_task t d now w s)"
  have "next_id ?s' = PInt (n + 1)"
    and "map id' (tasks ?s') = map PInt (is @ [n])"
    using nx ids(1) by (cases w; simp add: add_task_int Task_init_def)+
  moreover have "sorted_wrt (<) (is @ [n])" "\<forall>i\<in>set (is @ [n]). i < n + 1"
    using ids by (auto simp add: sorted_wrt_append)
  ultimately show ?thesis
    unfolding ids_below_def by blast
qed

lemma ids_below_complete:
  assumes "ids_below n s"
  shows "ids_below n (snd (complete_task i now w s))"
proof -
  let ?s' = "snd (complete_task i now w s)"
  have "next_id ?s' = next_id s \<and> map id' (tasks ?s') = map id' (tasks s)"
  proof (cases "find (\<lambda>t. eq_int (id' t) i) (tasks s)")
    case None
    then show ?thesis by (simp add: complete_task_None)
  next
    case (Some task)
    then show ?thesis
      by (cases "eq_str (status task) ''completed''"; cases w)
        (simp_all add: complete_task_done complete_task_todo)
  qed
  with assms show ?thesis
    unfolding ids_below_def by simp
qed

lemma ids_below_delete:
  assumes "ids_below n s"
  shows "ids_below n (snd (delete_task i w s))"
proof -
  from assms obtain "is" where
    nx: "next_id s = PInt n" and
    ids: "map id' (tasks s) = map PInt is" "sorted_wrt (<) is" "\<forall>i\<in>set is. i < n"
    by (auto simp add: ids_below_def)
  let ?s' = "snd (delete_task i w s)"
  have nx': "next_id ?s' = next_id s"
    by (cases "find (\<lambda>t. eq_int (id' t) i) (tasks s)"; cases w)
      (simp_all add: delete_task_None delete_task_Some)
  have "\<exists>js. map id' (tasks ?s') = map PInt js \<and> sorted_wrt (<) js \<and> (\<forall>i\<in>set js. i < n)"
  proof -
    from remove_first_cases [of "\<lambda>t. eq_int (id' t) i" "tasks s"] delete_task_tasks [of i w s]
    consider "tasks ?s' = tasks s"
      | bs x as where "tasks s = bs @ x # as" "tasks ?s' = bs @ as"
      by auto
    then show ?thesis
    proof cases
      case 1
      then show ?thesis using ids by auto
    next
      case 2
      from ids(1) 2(1) have "map PInt is = map id' bs @ id' x # map id' as" by simp
      from map_PInt_split [OF this] obtain js k ls where
        "is = js @ k # ls" "map id' bs = map PInt js" "map id' as = map PInt ls"
        by blast
      then have "map id' (tasks ?s') = map PInt (js @ ls)"
        "sorted_wrt (<) (js @ ls)" "\<forall>i\<in>set (js @ ls). i < n"
        using 2(2) ids(2,3) by (auto simp add: sorted_wrt_append)
      then show ?thesis by blast
    qed
  qed
  then show ?thesis
    using nx nx' unfolding ids_below_def by simp
qed

lemma ids_below_step: "ids_below n s \<Longrightarrow> \<exists>m\<ge>n. ids_below m (snd (step c s))"
proof -
  assume inv: "ids_below n s"
  obtain o' now w where c: "c = (o', now, w)" by (cases c)
  show ?thesis
  proof (cases o')
    case (Add t d)
    with c ids_below_add [OF inv, of t d now w] have "ids_below (n + 1) (snd (step c s))"
      by simp
    then show ?thesis by (intro exI [of _ "n + 1"]) simp
  next
    case (Complete i)
    with c ids_below_complete [OF inv, of i now w] have "ids_below n (snd (step c s))"
      by simp
    then show ?thesis by (intro exI [of _ n]) simp
  next
    case (Delete i)
    with c ids_below_delete [OF inv, of i w] have "ids_below n (snd (step c s))"
      by simp
    then show ?thesis by (intro exI [of _ n]) simp
  qed
qed

lemma ids_below_run: "ids_below n s \<Longrightarrow> \<exists>m\<ge>n. ids_below m (run cs s)"
proof (induction cs arbitrary: n s)
  case Nil
  then show ?case by auto
next
  case (Cons c cs)
  from ids_below_step [OF Cons.prems] obtain m where
    m: "n \<le> m" "ids_below m (snd (step c s))" by blast
  from Cons.IH [OF m(2)] obtain k where "m \<le> k" "ids_below k (run cs (snd (step c s)))"
    by blast
  with m(1) show ?case by (intro exI [of _ k]) simp
qed

lemma ids_below_sorted:
  assumes "ids_below n s"
  shows "sorted_wrt (\<lambda>a b. int_less (id' a) (id' b)) (tasks s)"
    and "\<forall>t\<in>set (tasks s). int_less (id' t) (next_id s)"
    and "distinct (map id' (tasks s))"
proof -
  from assms obtain "is" where
    nx: "next_id s = PInt n" and
    ids: "map id' (tasks s) = map PInt is" "sorted_wrt (<) is" "\<forall>i\<in>set is. i < n"
    by (auto simp add: ids_below_def)
  have "sorted_wrt int_less (map id' (tasks s))"
    using ids(1,2) by (simp add: sorted_wrt_int_less)
  then show "sorted_wrt (\<lambda>a b. int_less (id' a) (id' b)) (tasks s)"
    by (simp add: sorted_wrt_map)
  show "\<forall>t\<in>set (tasks s). int_less (id' t) (next_id s)"
  proof
    fix t assume "t \<in> set (tasks s)"
    then have "id' t \<in> set (map PInt is)"
      using ids(1) by (metis image_eqI set_map)
    then obtain i where "id' t = PInt i" "i \<in> set is" by auto
    with ids(3) nx show "int_less (id' t) (next_id s)" by simp
  qed
  have "distinct is" using ids(2) by (simp add: strict_sorted_iff)
  then have "distinct (map PInt is)" by (simp add: distinct_map inj_on_def)
  with ids(1) show "distinct (map id' (tasks s))" by simp
qed

lemma scenario3_eval:
  "map id' (tasks (run scenario3 (new_manager ''tasks.json'' no_files)))
     = [PInt 1, PInt 3, PInt 4]"
  "next_id (run scenario3 (new_manager ''tasks.json'' no_files)) = PInt 5"
  by (simp_all add: scenario3_def new_manager_def add_task_def delete_task_def get_task_def
      save_tasks_def Task_init_def Let_def)

text \<open>
  C10. In every store reached from the empty store (the store the constructor builds
  when there is no file to load) by a sequence of \<^verbatim>\<open>add_task\<close>, \<^verbatim>\<open>complete_task\<close> and
  \<^verbatim>\<open>delete_task\<close> calls, whatever the writes do, the task sequence is strictly
  increasing in id, every task's id is strictly less than \<open>next_id\<close> (ids and counter are
  ints), the ids are pairwise distinct, and \<^verbatim>\<open>list_tasks\<close> with no filter returns the
  tasks in this order.
\<close>

theorem reachable_ids_sorted:
  assumes "s = run calls (new_manager fn d)"
  shows "sorted_wrt (\<lambda>a b. int_less (id' a) (id' b)) (tasks s)
    \<and> (\<forall>t\<in>set (tasks s). int_less (id' t) (next_id s))
    \<and> distinct (map id' (tasks s))
    \<and> fst (list_tasks None s) = Inr (tasks s)"
proof -
  from ids_below_run [OF ids_below_new] assms obtain m where "ids_below m s" by blast
  from ids_below_sorted [OF this] show ?thesis by (simp add: list_tasks_def)
qed

theorem reachable_ids_sorted_witness:
  "map id' (tasks (run scenario3 (new_manager ''tasks.json'' no_files)))
     = [PInt 1, PInt 3, PInt 4]
   \<and> next_id (run scenario3 (new_manager ''tasks.json'' no_files)) = PInt 5
   \<and> sorted_wrt (\<lambda>a b. int_less (id' a) (id' b))
       (tasks (run scenario3 (new_manager ''tasks.json'' no_files)))
   \<and> distinct (map id' (tasks (run scenario3 (new_manager ''tasks.json'' no_files))))
   \<and> fst (list_tasks None (run scenario3 (new_manager ''tasks.json'' no_files)))
     = Inr (tasks (run scenario3 (new_manager ''tasks.json'' no_files)))"
proof -
  let ?s = "run scenario3 (new_manager ''tasks.json'' no_files)"
  from reachable_ids_sorted [of ?s scenario3 "''tasks.json''" no_files, OF refl]
  have "sorted_wrt (\<lambda>a b. int_less (id' a) (id' b)) (tasks ?s)"
    and "distinct (map id' (tasks ?s))"
    and "fst (list_tasks None ?s) = Inr (tasks ?s)"
    by blast+
  with scenario3_eval show ?thesis by blast
qed

section \<open>Status and completion time\<close>

lemma coupled_step:
  assumes "\<forall>t\<in>set (tasks s). coupled t"
  shows "\<forall>t\<in>set (tasks (snd (step c s))). coupled t"
proof -
  obtain o' now w where c: "c = (o', now, w)" by (cases c)
  show ?thesis
  proof (cases o')
    case (Add t d)
    then show ?thesis using c assms
      by (simp add: add_task_tasks) (simp add: coupled_def Task_init_def)
  next
    case (Complete i)
    have "coupled (complete now t)" for t
      by (simp add: coupled_def complete_def)
    then have "\<forall>t\<in>set (update_first (\<lambda>t. eq_int (id' t) i) (complete now) (tasks s)). coupled t"
      using assms set_update_first [of "\<lambda>t. eq_int (id' t) i" "complete now" "tasks s"]
      by auto
    then show ?thesis
      using c Complete assms complete_task_tasks [of i now w s] by auto
  next
    case (Delete i)
    have "\<forall>t\<in>set (remove_first (\<lambda>t. eq_int (id' t) i) (tasks s)). coupled t"
      using assms set_remove_first [of "\<lambda>t. eq_int (id' t) i" "tasks s"] by auto
    then show ?thesis
      using c Delete assms delete_task_tasks [of i w s] by auto
  qed
qed

lemma coupled_run:
  "\<forall>t\<in>set (tasks s). coupled t \<Longrightarrow> \<forall>t\<in>set (tasks (run cs s)). coupled t"
proof (induction cs arbitrary: s)
  case Nil
  then show ?case by simp
next
  case (Cons c cs)
  from coupled_step [OF Cons.prems] have "\<forall>t\<in>set (tasks (snd (step c s))). coupled t" .
  from Cons.IH [OF this] show ?case by simp
qed

text \<open>
  C5. In every store reached from the empty store by a sequence of \<^verbatim>\<open>add_task\<close>,
  \<^verbatim>\<open>complete_task\<close> and \<^verbatim>\<open>delete_task\<close> calls, whatever the writes do, every task has
  a \<open>completed_at\<close> other than \<^verbatim>\<open>None\<close> if and only if its status is completed.
\<close>

theorem reachable_status_coupling:
  "\<forall>t\<in>set (tasks (run calls (new_manager fn d))).
     (completed_at t \<noteq> PNone) = (status t = PStr ''completed'')"
proof -
  have "\<forall>t\<in>set (tasks (new_manager fn d)). coupled t"
    by (simp add: new_manager_def)
  from coupled_run [OF this] show ?thesis
    by (simp add: coupled_def)
qed

theorem reachable_status_coupling_witness:
  "tasks (run two_calls (new_manager ''tasks.json'' no_files)) = [task_a_done, task_b]
   \<and> (completed_at task_a_done \<noteq> PNone) = (status task_a_done = PStr ''completed'')
   \<and> (completed_at task_b \<noteq> PNone) = (status task_b = PStr ''completed'')
   \<and> status task_a_done = PStr ''completed'' \<and> completed_at task_a_done = PStr ''t3''
   \<and> status task_b = PStr ''pending'' \<and> completed_at task_b = PNone"
proof -
  from reachable_status_coupling [of two_calls "''tasks.json''" no_files]
  have "(completed_at task_a_done \<noteq> PNone) = (status task_a_done = PStr ''completed'')"
    and "(completed_at task_b \<noteq> PNone) = (status task_b = PStr ''completed'')"
    unfolding two_calls_eval by simp_all
  moreover have "status task_a_done = PStr ''completed'' \<and> completed_at task_a_done = PStr ''t3''
    \<and> status task_b = PStr ''pending'' \<and> completed_at task_b = PNone"
    by (simp add: task_a_done_def task_b_def)
  ultimately show ?thesis using two_calls_eval by blast
qed

section \<open>The ids handed out to new tasks\<close>

lemma added_ids_skip: "(\<And>t. x \<noteq> Inr (RTask t)) \<Longrightarrow> added_ids (x # rs) = added_ids rs"
  by (cases "(x # rs)" rule: added_ids.cases) auto

lemma added_ids_above:
  "ids_below n s \<Longrightarrow>
   \<exists>js. added_ids (outcomes cs s) = map PInt js \<and> sorted_wrt (<) js \<and> (\<forall>j\<in>set js. n \<le> j)"
proof (induction cs arbitrary: n s)
  case Nil
  have "added_ids (outcomes [] s) = map PInt [] \<and> sorted_wrt (<) ([] :: int list)
      \<and> (\<forall>j\<in>set []. n \<le> j)"
    by simp
  then show ?case by blast
next
  case (Cons c cs)
  obtain o' now w where c: "c = (o', now, w)" by (cases c)
  let ?s' = "snd (step c s)"
  show ?case
  proof (cases o')
    case (Add t d)
    have "ids_below (n + 1) ?s'"
      using c Add ids_below_add [OF Cons.prems] by simp
    from Cons.IH [OF this] obtain js where
      js: "added_ids (outcomes cs ?s') = map PInt js" "sorted_wrt (<) js" "\<forall>j\<in>set js. n + 1 \<le> j"
      by blast
    from Cons.prems have nx: "next_id s = PInt n" by (simp add: ids_below_def)
    show ?thesis
    proof (cases w)
      case Written
      have "fst (step c s) = Inr (RTask (Task_init (PStr t) (PStr d) (PInt n) now))"
        using c Add Written nx by (simp add: add_task_int)
      then have "added_ids (outcomes (c # cs) s) = map PInt (n # js)"
        using js(1) by (simp add: Task_init_def)
      moreover have "sorted_wrt (<) (n # js)" "\<forall>j\<in>set (n # js). n \<le> j"
        using js(2,3) by auto
      ultimately show ?thesis by blast
    next
      case (Fails x)
      have "fst (step c s) = Inl OSError"
        using c Add Fails nx by (simp add: add_task_int)
      then have "added_ids (outcomes (c # cs) s) = map PInt js"
        using js(1) by simp
      moreover have "\<forall>j\<in>set js. n \<le> j"
        using js(3) by auto
      ultimately show ?thesis using js(2) by blast
    qed
  next
    case (Complete i)
    from ids_below_step [OF Cons.prems] obtain m where m: "n \<le> m" "ids_below m ?s'"
      by blast
    from Cons.IH [OF m(2)] obtain js where
      js: "added_ids (outcomes cs ?s') = map PInt js" "sorted_wrt (<) js" "\<forall>j\<in>set js. m \<le> j"
      by blast
    have "added_ids (outcomes (c # cs) s) = map PInt js"
      using c Complete js(1) by (simp add: added_ids_skip fst_lift_RBool)
    moreover have "\<forall>j\<in>set js. n \<le> j"
      using js(3) m(1) by auto
    ultimately show ?thesis using js(2) by blast
  next
    case (Delete i)
    from ids_below_step [OF Cons.prems] obtain m where m: "n \<le> m" "ids_below m ?s'"
      by blast
    from Cons.IH [OF m(2)] obtain js where
      js: "added_ids (outcomes cs ?s') = map PInt js" "sorted_wrt (<) js" "\<forall>j\<in>set js. m \<le> j"
      by blast
    have "added_ids (outcomes (c # cs) s) = map PInt js"
      using c Delete js(1) by (simp add: added_ids_skip fst_lift_RBool)
    moreover have "\<forall>j\<in>set js. n \<le> j"
      using js(3) m(1) by auto
    ultimately show ?thesis using js(2) by blast
  qed
qed

text \<open>The id a call returns is above the id of every task the store holds at that call.\<close>

lemma returned_id_above:
  assumes "ids_below n s" and "fst (step c s) = Inr (RTask t)"
  shows "\<forall>u\<in>set (tasks s). int_less (id' u) (id' t)"
proof -
  obtain o' now w where c: "c = (o', now, w)" by (cases c)
  from assms(1) have nx: "next_id s = PInt n" by (simp add: ids_below_def)
  show ?thesis
  proof (cases o')
    case (Add a b)
    have "id' t = PInt n"
      using assms(2) c Add nx by (cases w) (auto simp add: add_task_int Task_init_def)
    with ids_below_sorted(2) [OF assms(1)] nx show ?thesis by simp
  next
    case (Complete i)
    with assms(2) c fst_lift_RBool [of "complete_task i now w s" t] show ?thesis by simp
  next
    case (Delete i)
    with assms(2) c fst_lift_RBool [of "delete_task i w s" t] show ?thesis by simp
  qed
qed

text \<open>
  C4. For every sequence of \<^verbatim>\<open>add_task\<close>, \<^verbatim>\<open>complete_task\<close> and \<^verbatim>\<open>delete_task\<close>
  calls on a store that starts empty, whatever the writes do, the ids of the tasks that the
  \<^verbatim>\<open>add_task\<close> calls return are ints in strictly increasing order, so no id is returned
  twice; and the id a call returns is greater than the id of every task in the store at
  that call, deletions before it or not. After ids 1, 2, 3 and the deletion of task 2 the
  next \<^verbatim>\<open>add_task\<close> returns id 4 (the witness).
\<close>

theorem added_ids_increasing:
  "sorted_wrt int_less (added_ids (outcomes calls (new_manager fn d)))
   \<and> distinct (added_ids (outcomes calls (new_manager fn d)))
   \<and> (\<forall>pre c post t.
         calls = pre @ c # post \<and> fst (step c (run pre (new_manager fn d))) = Inr (RTask t)
         \<longrightarrow> (\<forall>u\<in>set (tasks (run pre (new_manager fn d))). int_less (id' u) (id' t)))"
proof (intro conjI allI impI)
  from added_ids_above [OF ids_below_new] obtain js where
    js: "added_ids (outcomes calls (new_manager fn d)) = map PInt js" "sorted_wrt (<) js"
    by blast
  have "distinct js" using js(2) by (simp add: strict_sorted_iff)
  then have "distinct (map PInt js)" by (simp add: distinct_map inj_on_def)
  with js show "sorted_wrt int_less (added_ids (outcomes calls (new_manager fn d)))"
    and "distinct (added_ids (outcomes calls (new_manager fn d)))"
    by (simp_all add: sorted_wrt_int_less)
next
  fix pre c post t
  assume a: "calls = pre @ c # post
      \<and> fst (step c (run pre (new_manager fn d))) = Inr (RTask t)"
  from ids_below_run [OF ids_below_new] obtain m where
    "ids_below m (run pre (new_manager fn d))" by blast
  from returned_id_above [OF this] a
  show "\<forall>u\<in>set (tasks (run pre (new_manager fn d))). int_less (id' u) (id' t)"
    by blast
qed

theorem added_ids_increasing_witness:
  "added_ids (outcomes scenario3 (new_manager ''tasks.json'' no_files))
     = [PInt 1, PInt 2, PInt 3, PInt 4]
   \<and> map id' (tasks (run (take 4 scenario3) (new_manager ''tasks.json'' no_files)))
     = [PInt 1, PInt 3]
   \<and> sorted_wrt int_less [PInt 1, PInt 2, PInt 3, PInt 4]
   \<and> distinct [PInt 1, PInt 2, PInt 3, PInt 4]"
proof -
  have e: "added_ids (outcomes scenario3 (new_manager ''tasks.json'' no_files))
     = [PInt 1, PInt 2, PInt 3, PInt 4]"
    by (simp add: scenario3_def new_manager_def add_task_def delete_task_def get_task_def
        save_tasks_def Task_init_def Let_def)
  have "map id' (tasks (run (take 4 scenario3) (new_manager ''tasks.json'' no_files)))
     = [PInt 1, PInt 3]"
    by (simp add: scenario3_def new_manager_def add_task_def delete_task_def get_task_def
        save_tasks_def Task_init_def Let_def)
  moreover from added_ids_increasing [of scenario3 "''tasks.json''" no_files]
  have "sorted_wrt int_less [PInt 1, PInt 2, PInt 3, PInt 4]"
    and "distinct [PInt 1, PInt 2, PInt 3, PInt 4]"
    unfolding e by blast+
  ultimately show ?thesis using e by blast
qed

section \<open>Saving and loading\<close>

lemma from_dict_to_dict: "from_dict now (to_dict t) = Inr t"
  by (simp add: from_dict_def to_dict_def Task_init_def)

lemma from_dicts_to_dict: "from_dicts now (map to_dict ts) = Inr ts"
  by (induction ts) (simp_all add: from_dict_to_dict)

lemma load_saved:
  assumes "disk s (filename s) =
     Some (Json (PDict [(''tasks'', PList (map to_dict ts)), (''next_id'', n)]))"
  shows "load_tasks now s = (Inr (), s\<lparr>tasks := ts, next_id := n\<rparr>)"
  using assms by (simp add: load_tasks_def try_load_def from_dicts_to_dict)

lemma filename_step [simp]: "filename (snd (step c s)) = filename s"
proof -
  obtain o' now w where c: "c = (o', now, w)" by (cases c)
  show ?thesis
  proof (cases o')
    case (Add t d)
    then show ?thesis using c
      by (cases "add_one (next_id s)"; cases w) (simp_all add: add_task_def Let_def save_tasks_def)
  next
    case (Complete i)
    then show ?thesis using c
      by (cases w) (simp_all add: complete_task_def get_task_eq save_tasks_def split: option.split)
  next
    case (Delete i)
    then show ?thesis using c
      by (cases w) (simp_all add: delete_task_def get_task_eq save_tasks_def split: option.split)
  qed
qed

lemma filename_run [simp]: "filename (run cs s) = filename s"
  by (induction cs arbitrary: s) simp_all

lemma two_calls_next_id:
  "next_id (run two_calls (new_manager ''tasks.json'' no_files)) = PInt 3"
  by (simp add: two_calls_def new_manager_def add_task_def complete_task_def get_task_def
      save_tasks_def Task_init_def complete_def Let_def)

text \<open>
  C1. For every sequence of \<^verbatim>\<open>add_task\<close>, \<^verbatim>\<open>complete_task\<close> and \<^verbatim>\<open>delete_task\<close>
  calls on a store that starts empty, whatever the writes of these calls do: a
  \<^verbatim>\<open>save_tasks\<close> whose write succeeds returns, and a new manager constructed on the same
  file name with the file system this save leaves loads without an error and without
  reporting one; its task sequence is the task sequence of the saved store, equal task by
  task in all six fields, and its \<open>next_id\<close> is the saved store's \<open>next_id\<close>.
\<close>

theorem save_load_roundtrip:
  "\<exists>s' s''. save_tasks Written (run calls (new_manager fn d)) = (Inr (), s')
      \<and> TaskManager_init now fn (disk s') = (Inr (), s'')
      \<and> tasks s'' = tasks (run calls (new_manager fn d))
      \<and> map id' (tasks s'') = map id' (tasks (run calls (new_manager fn d)))
      \<and> map title (tasks s'') = map title (tasks (run calls (new_manager fn d)))
      \<and> map description (tasks s'') = map description (tasks (run calls (new_manager fn d)))
      \<and> map status (tasks s'') = map status (tasks (run calls (new_manager fn d)))
      \<and> map created_at (tasks s'') = map created_at (tasks (run calls (new_manager fn d)))
      \<and> map completed_at (tasks s'') = map completed_at (tasks (run calls (new_manager fn d)))
      \<and> next_id s'' = next_id (run calls (new_manager fn d))
      \<and> stdout s'' = []"
proof -
  let ?s = "run calls (new_manager fn d)"
  let ?s' = "snd (save_tasks Written ?s)"
  have fn: "filename ?s = fn"
    by (simp add: new_manager_def)
  have r: "save_tasks Written ?s = (Inr (), ?s')"
    by (simp add: save_tasks_Written)
  have "disk ?s' fn =
      Some (Json (PDict [(''tasks'', PList (map to_dict (tasks ?s))), (''next_id'', next_id ?s)]))"
    using fn by (simp add: save_tasks_Written)
  then have "disk (new_manager fn (disk ?s')) (filename (new_manager fn (disk ?s'))) =
      Some (Json (PDict [(''tasks'', PList (map to_dict (tasks ?s))), (''next_id'', next_id ?s)]))"
    by (simp add: new_manager_def)
  from load_saved [OF this]
  have l: "TaskManager_init now fn (disk ?s') =
      (Inr (), (new_manager fn (disk ?s'))\<lparr>tasks := tasks ?s, next_id := next_id ?s\<rparr>)"
    by (simp add: TaskManager_init_def)
  let ?s'' = "(new_manager fn (disk ?s'))\<lparr>tasks := tasks ?s, next_id := next_id ?s\<rparr>"
  show ?thesis
  proof (rule exI [of _ ?s'], rule exI [of _ ?s''], intro conjI)
    show "save_tasks Written ?s = (Inr (), ?s')" by (rule r)
    show "TaskManager_init now fn (disk ?s') = (Inr (), ?s'')" by (rule l)
    show "tasks ?s'' = tasks ?s" by simp
    show "map id' (tasks ?s'') = map id' (tasks ?s)" by simp
    show "map title (tasks ?s'') = map title (tasks ?s)" by simp
    show "map description (tasks ?s'') = map description (tasks ?s)" by simp
    show "map status (tasks ?s'') = map status (tasks ?s)" by simp
    show "map created_at (tasks ?s'') = map created_at (tasks ?s)" by simp
    show "map completed_at (tasks ?s'') = map completed_at (tasks ?s)" by simp
    show "next_id ?s'' = next_id ?s" by simp
    show "stdout ?s'' = []" by (simp add: new_manager_def)
  qed
qed

theorem save_load_roundtrip_witness:
  "fst (save_tasks Written (run two_calls (new_manager ''tasks.json'' no_files))) = Inr ()
   \<and> fst (TaskManager_init ''t9'' ''tasks.json''
            (disk (snd (save_tasks Written (run two_calls (new_manager ''tasks.json'' no_files))))))
     = Inr ()
   \<and> tasks (snd (TaskManager_init ''t9'' ''tasks.json''
            (disk (snd (save_tasks Written (run two_calls (new_manager ''tasks.json'' no_files)))))))
     = [task_a_done, task_b]
   \<and> next_id (snd (TaskManager_init ''t9'' ''tasks.json''
            (disk (snd (save_tasks Written (run two_calls (new_manager ''tasks.json'' no_files)))))))
     = PInt 3"
proof -
  let ?s = "run two_calls (new_manager ''tasks.json'' no_files)"
  from save_load_roundtrip [of two_calls "''tasks.json''" no_files "''t9''"]
  obtain s' s'' where
    a: "save_tasks Written ?s = (Inr (), s')"
       "TaskManager_init ''t9'' ''tasks.json'' (disk s') = (Inr (), s'')"
       "tasks s'' = tasks ?s" "next_id s'' = next_id ?s"
    by blast
  from a(1) have 1: "fst (save_tasks Written ?s) = Inr ()"
    and 2: "snd (save_tasks Written ?s) = s'"
    by simp_all
  from a(2) have 3: "fst (TaskManager_init ''t9'' ''tasks.json'' (disk s')) = Inr ()"
    and 4: "snd (TaskManager_init ''t9'' ''tasks.json'' (disk s')) = s''"
    by simp_all
  show ?thesis
    unfolding 2 4 using 1 3 a(3,4) by (simp add: two_calls_eval two_calls_next_id)
qed

section \<open>Loading a file that cannot be read as a store\<close>







end
